theory Spec2Isabelle
  imports Main "HOL-Library.Word"
begin

unbundle bit_operations_syntax

section \<open>HMAC-SHA256 as used by \<open>hmac.new(key, msg, hashlib.sha256)\<close>\<close>

text \<open>
  The source calls the standard library for the keyed hash. The library routine is
  written out here after FIPS 180-4 (SHA-256) and RFC 2104 (HMAC). A byte is a natural
  number below 256 and a 32-bit word a natural number below \<open>2 ^ 32\<close>; every
  addition of words is reduced modulo \<open>2 ^ 32\<close> explicitly.
\<close>

type_synonym byte = nat
type_synonym u32 = nat

definition add32 :: "u32 \<Rightarrow> u32 \<Rightarrow> u32" where
  "add32 x y = (x + y) mod 2 ^ 32"

definition rotr :: "nat \<Rightarrow> u32 \<Rightarrow> u32" where
  "rotr n x = (x div 2 ^ n) OR ((x * 2 ^ (32 - n)) mod 2 ^ 32)"

definition shr :: "nat \<Rightarrow> u32 \<Rightarrow> u32" where
  "shr n x = x div 2 ^ n"

definition Ch :: "u32 \<Rightarrow> u32 \<Rightarrow> u32 \<Rightarrow> u32" where
  "Ch x y z = (x AND y) XOR ((x XOR 0xffffffff) AND z)"

definition Maj :: "u32 \<Rightarrow> u32 \<Rightarrow> u32 \<Rightarrow> u32" where
  "Maj x y z = (x AND y) XOR (x AND z) XOR (y AND z)"

definition bsig0 :: "u32 \<Rightarrow> u32" where
  "bsig0 x = rotr 2 x XOR rotr 13 x XOR rotr 22 x"

definition bsig1 :: "u32 \<Rightarrow> u32" where
  "bsig1 x = rotr 6 x XOR rotr 11 x XOR rotr 25 x"

definition ssig0 :: "u32 \<Rightarrow> u32" where
  "ssig0 x = rotr 7 x XOR rotr 18 x XOR shr 3 x"

definition ssig1 :: "u32 \<Rightarrow> u32" where
  "ssig1 x = rotr 17 x XOR rotr 19 x XOR shr 10 x"

text \<open>The round constants (the first 32 bits of the fractional parts of the cube
  roots of the first 64 primes) and the initial hash value (likewise, of the square roots
  of the first 8 primes), in decimal.\<close>

definition K256 :: "u32 list" where
  "K256 =
   [1116352408, 1899447441, 3049323471, 3921009573, 961987163, 1508970993,
    2453635748, 2870763221, 3624381080, 310598401, 607225278, 1426881987,
    1925078388, 2162078206, 2614888103, 3248222580, 3835390401, 4022224774,
    264347078, 604807628, 770255983, 1249150122, 1555081692, 1996064986,
    2554220882, 2821834349, 2952996808, 3210313671, 3336571891, 3584528711,
    113926993, 338241895, 666307205, 773529912, 1294757372, 1396182291,
    1695183700, 1986661051, 2177026350, 2456956037, 2730485921, 2820302411,
    3259730800, 3345764771, 3516065817, 3600352804, 4094571909, 275423344,
    430227734, 506948616, 659060556, 883997877, 958139571, 1322822218,
    1537002063, 1747873779, 1955562222, 2024104815, 2227730452, 2361852424,
    2428436474, 2756734187, 3204031479, 3329325298]"

definition H256 :: "u32 list" where
  "H256 =
   [1779033703, 3144134277, 1013904242, 2773480762, 1359893119, 2600822924,
    528734635, 1541459225]"

fun words_of :: "byte list \<Rightarrow> u32 list" where
  "words_of (a # b # c # d # bs) = (a * 2 ^ 24 + b * 2 ^ 16 + c * 2 ^ 8 + d) # words_of bs"
| "words_of _ = []"

definition bytes_of_u32 :: "u32 \<Rightarrow> byte list" where
  "bytes_of_u32 w = [w div 2 ^ 24 mod 256, w div 2 ^ 16 mod 256, w div 2 ^ 8 mod 256, w mod 256]"

definition next_w :: "u32 list \<Rightarrow> u32" where
  "next_w w = (let n = length w in
     add32 (add32 (add32 (ssig1 (w ! (n - 2))) (w ! (n - 7))) (ssig0 (w ! (n - 15)))) (w ! (n - 16)))"

function schedule :: "u32 list \<Rightarrow> u32 list" where
  "schedule w = (if 64 \<le> length w then w else schedule (w @ [next_w w]))"
  by pat_completeness auto
termination
  by (relation "measure (\<lambda>w. 64 - length w)") auto

declare schedule.simps [simp del]

fun round256 :: "u32 list \<Rightarrow> u32 \<times> u32 \<Rightarrow> u32 list" where
  "round256 [a, b, c, d, e, f, g, h] (k, w) =
     (let t1 = add32 (add32 (add32 (add32 h (bsig1 e)) (Ch e f g)) k) w;
          t2 = add32 (bsig0 a) (Maj a b c)
      in [add32 t1 t2, a, b, c, add32 d t1, e, f, g])"
| "round256 s _ = s"

definition compress :: "u32 list \<Rightarrow> byte list \<Rightarrow> u32 list" where
  "compress hs block =
     map2 add32 hs (foldl round256 hs (zip K256 (schedule (words_of block))))"

definition be64 :: "nat \<Rightarrow> byte list" where
  "be64 n = [n div 2 ^ 56 mod 256, n div 2 ^ 48 mod 256, n div 2 ^ 40 mod 256,
             n div 2 ^ 32 mod 256, n div 2 ^ 24 mod 256, n div 2 ^ 16 mod 256,
             n div 2 ^ 8 mod 256, n mod 256]"

definition sha_pad :: "byte list \<Rightarrow> byte list" where
  "sha_pad m = m @ [0x80] @ replicate ((119 - length m mod 64) mod 64) 0
                 @ be64 (8 * length m mod 2 ^ 64)"

fun sha_blocks :: "u32 list \<Rightarrow> byte list \<Rightarrow> u32 list" where
  "sha_blocks hs bs =
     (if length bs < 64 then hs else sha_blocks (compress hs (take 64 bs)) (drop 64 bs))"

declare sha_blocks.simps [simp del]

definition sha256 :: "byte list \<Rightarrow> byte list" where
  "sha256 m = concat (map bytes_of_u32 (sha_blocks H256 (sha_pad m)))"


text \<open>\<open>hmac.new(key, msg, hashlib.sha256).digest()\<close>: a key longer than the block
  size of 64 bytes is hashed first, then padded with zero bytes to the block size.\<close>

definition hmac_key :: "byte list \<Rightarrow> byte list" where
  "hmac_key key =
     (let k = (if 64 < length key then sha256 key else key)
      in k @ replicate (64 - length k) 0)"

definition hmac_new :: "byte list \<Rightarrow> byte list \<Rightarrow> byte list" where
  "hmac_new key msg =
     (let k = hmac_key key;
          inner = sha256 (map (\<lambda>b. b XOR 0x36) k @ msg)
      in sha256 (map (\<lambda>b. b XOR 0x5c) k @ inner))"

text \<open>\<open>hexdigest()\<close>: two lowercase hexadecimal digits for each byte. A Python
  \<open>str\<close> is the list of its code points; \<open>ascii\<close> reads a literal as such a list.\<close>

type_synonym str = "nat list"

definition ascii :: "string \<Rightarrow> str" where
  "ascii s = map of_char s"

definition hexdigit :: "nat \<Rightarrow> nat" where
  "hexdigit n = ascii ''0123456789abcdef'' ! n"

definition hexdigest :: "byte list \<Rightarrow> str" where
  "hexdigest bs = concat (map (\<lambda>b. [hexdigit (b div 16), hexdigit (b mod 16)]) bs)"

section \<open>Python values\<close>

text \<open>
  The values \<open>generate_signature\<close> can be called with. A dict is the list of its items
  in insertion order. A finite float carries the text \<open>float.__repr__\<close> prints for it,
  a word over the digits, the point, \<open>e\<close>, \<open>+\<close> and \<open>-\<close>; the conversion from
  binary to shortest decimal is not modelled. \<open>PBytes\<close> stands for
  a \<open>bytes\<close> object. \<open>PCycle\<close> stands for a reference to a list or dict that encloses
  it: the encoder's \<open>markers\<close> hold exactly the containers on the path from the root, so
  a cyclic structure is, to the encoder, a tree with such a leaf. \<open>KOther\<close> is a key
  that is none of str, int, float, bool, None (a tuple, say).
\<close>

datatype error = TypeError | ValueError | AttributeError | UnicodeEncodeError

datatype fsym = D0 | D1 | D2 | D3 | D4 | D5 | D6 | D7 | D8 | D9 | Point | Exp | Plus | Minus

datatype pyfloat = Finite "fsym list" | NaN | PosInf | NegInf

datatype pykey = KStr str | KInt int | KBool bool | KNone | KFloat pyfloat | KOther

datatype pyval =
    PNone
  | PBool bool
  | PInt int
  | PFloat pyfloat
  | PStr str
  | PBytes "byte list"
  | PList "pyval list"
  | PDict "(pykey \<times> pyval) list"
  | PCycle

section \<open>\<open>str.encode('utf-8')\<close>\<close>

text \<open>Code points of a \<open>str\<close> are below \<open>0x110000\<close>. A surrogate
  (\<open>0xD800\<close> to \<open>0xDFFF\<close>) cannot be encoded: UnicodeEncodeError.\<close>

definition utf8_cp :: "nat \<Rightarrow> error + byte list" where
  "utf8_cp c =
     (if c < 0x80 then Inr [c]
      else if c < 0x800 then Inr [0xC0 + c div 64, 0x80 + c mod 64]
      else if 0xD800 \<le> c \<and> c \<le> 0xDFFF then Inl UnicodeEncodeError
      else if c < 0x10000 then Inr [0xE0 + c div 4096, 0x80 + c div 64 mod 64, 0x80 + c mod 64]
      else Inr [0xF0 + c div 262144 mod 8, 0x80 + c div 4096 mod 64,
                0x80 + c div 64 mod 64, 0x80 + c mod 64])"

fun str_encode :: "str \<Rightarrow> error + byte list" where
  "str_encode [] = Inr []"
| "str_encode (c # cs) =
     (case utf8_cp c of
        Inl e \<Rightarrow> Inl e
      | Inr bs \<Rightarrow> (case str_encode cs of Inl e \<Rightarrow> Inl e | Inr rest \<Rightarrow> Inr (bs @ rest)))"

text \<open>The method call \<open>x.encode('utf-8')\<close>: only a \<open>str\<close> has the method here
  (\<open>bytes\<close>, lists, dicts, numbers and None raise AttributeError).\<close>

fun py_encode :: "pyval \<Rightarrow> error + byte list" where
  "py_encode (PStr s) = str_encode s"
| "py_encode _ = Inl AttributeError"

section \<open>\<open>json.dumps(payload, separators=(',', ':'))\<close>\<close>

text \<open>
  All other arguments of \<open>json.dumps\<close> have their defaults: \<open>ensure_ascii=True\<close>,
  \<open>check_circular=True\<close>, \<open>allow_nan=True\<close>, \<open>sort_keys=False\<close>, \<open>skipkeys=False\<close>,
  \<open>indent=None\<close>, no \<open>default\<close> hook.
\<close>

definition hex4 :: "nat \<Rightarrow> str" where
  "hex4 n = [hexdigit (n div 4096 mod 16), hexdigit (n div 256 mod 16),
             hexdigit (n div 16 mod 16), hexdigit (n mod 16)]"

text \<open>\<open>encode_basestring_ascii\<close>: backslash, the quote and every character outside
  space to tilde are escaped; above the basic plane a surrogate pair is written
  (\<open>0xd800 | ((n >> 10) & 0x3ff)\<close> and \<open>0xdc00 | (n & 0x3ff)\<close> for \<open>n = c - 0x10000\<close>).\<close>

definition esc_char :: "nat \<Rightarrow> str" where
  "esc_char c =
     (if c = 0x5c then ascii [CHR 0x5c, CHR 0x5c]
      else if c = 0x22 then ascii [CHR 0x5c, CHR 0x22]
      else if c = 0x08 then ascii [CHR 0x5c, CHR ''b'']
      else if c = 0x0c then ascii [CHR 0x5c, CHR ''f'']
      else if c = 0x0a then ascii [CHR 0x5c, CHR ''n'']
      else if c = 0x0d then ascii [CHR 0x5c, CHR ''r'']
      else if c = 0x09 then ascii [CHR 0x5c, CHR ''t'']
      else if 0x20 \<le> c \<and> c \<le> 0x7e then [c]
      else if c < 0x10000 then ascii [CHR 0x5c, CHR ''u''] @ hex4 c
      else ascii [CHR 0x5c, CHR ''u''] @ hex4 (0xd800 + (c - 0x10000) div 1024 mod 1024)
         @ ascii [CHR 0x5c, CHR ''u''] @ hex4 (0xdc00 + (c - 0x10000) mod 1024))"

definition encode_basestring_ascii :: "str \<Rightarrow> str" where
  "encode_basestring_ascii s = 0x22 # concat (map esc_char s) @ [0x22]"

text \<open>\<open>int.__repr__\<close>: decimal digits, a minus sign for a negative number.\<close>

fun digits :: "nat \<Rightarrow> str" where
  "digits n = (if n < 10 then [48 + n] else digits (n div 10) @ [48 + n mod 10])"

declare digits.simps [simp del]

definition intstr :: "int \<Rightarrow> str" where
  "intstr i = (if i < 0 then 45 # digits (nat (- i)) else digits (nat i))"

text \<open>\<open>floatstr\<close> with \<open>allow_nan=True\<close>: the non-finite values are written out.\<close>

fun fsym_code :: "fsym \<Rightarrow> nat" where
  "fsym_code D0 = 48" | "fsym_code D1 = 49" | "fsym_code D2 = 50" | "fsym_code D3 = 51"
| "fsym_code D4 = 52" | "fsym_code D5 = 53" | "fsym_code D6 = 54" | "fsym_code D7 = 55"
| "fsym_code D8 = 56" | "fsym_code D9 = 57" | "fsym_code Point = 46" | "fsym_code Exp = 101"
| "fsym_code Plus = 43" | "fsym_code Minus = 45"

fun floatstr :: "pyfloat \<Rightarrow> str" where
  "floatstr (Finite r) = map fsym_code r"
| "floatstr NaN = ascii ''NaN''"
| "floatstr PosInf = ascii ''Infinity''"
| "floatstr NegInf = ascii ''-Infinity''"

text \<open>The key of a dict item, as the encoder's chain of tests converts it.\<close>

fun keystr :: "pykey \<Rightarrow> error + str" where
  "keystr (KStr s) = Inr s"
| "keystr (KFloat f) = Inr (floatstr f)"
| "keystr (KBool True) = Inr (ascii ''true'')"
| "keystr (KBool False) = Inr (ascii ''false'')"
| "keystr KNone = Inr (ascii ''null'')"
| "keystr (KInt i) = Inr (intstr i)"
| "keystr KOther = Inl TypeError"

fun join :: "str \<Rightarrow> str list \<Rightarrow> str" where
  "join sep [] = []"
| "join sep [x] = x"
| "join sep (x # y # ys) = x @ sep @ join sep (y # ys)"

text \<open>The encoder, with the item separator and the key separator it was built with.
  The first error ends the run, as the exception does.\<close>

fun iterencode :: "str \<Rightarrow> str \<Rightarrow> pyval \<Rightarrow> error + str"
  and iterencode_list :: "str \<Rightarrow> str \<Rightarrow> pyval list \<Rightarrow> error + str list"
  and iterencode_dict :: "str \<Rightarrow> str \<Rightarrow> (pykey \<times> pyval) list \<Rightarrow> error + str list"
where
  "iterencode isep ksep PNone = Inr (ascii ''null'')"
| "iterencode isep ksep (PBool True) = Inr (ascii ''true'')"
| "iterencode isep ksep (PBool False) = Inr (ascii ''false'')"
| "iterencode isep ksep (PInt i) = Inr (intstr i)"
| "iterencode isep ksep (PFloat f) = Inr (floatstr f)"
| "iterencode isep ksep (PStr s) = Inr (encode_basestring_ascii s)"
| "iterencode isep ksep (PBytes b) = Inl TypeError"
| "iterencode isep ksep PCycle = Inl ValueError"
| "iterencode isep ksep (PList vs) =
     (case iterencode_list isep ksep vs of
        Inl e \<Rightarrow> Inl e
      | Inr xs \<Rightarrow> Inr (ascii ''['' @ join isep xs @ ascii '']''))"
| "iterencode isep ksep (PDict kvs) =
     (case iterencode_dict isep ksep kvs of
        Inl e \<Rightarrow> Inl e
      | Inr xs \<Rightarrow> Inr (ascii ''{'' @ join isep xs @ ascii ''}''))"
| "iterencode_list isep ksep [] = Inr []"
| "iterencode_list isep ksep (v # vs) =
     (case iterencode isep ksep v of
        Inl e \<Rightarrow> Inl e
      | Inr x \<Rightarrow> (case iterencode_list isep ksep vs of
                   Inl e \<Rightarrow> Inl e
                 | Inr xs \<Rightarrow> Inr (x # xs)))"
| "iterencode_dict isep ksep [] = Inr []"
| "iterencode_dict isep ksep ((k, v) # kvs) =
     (case keystr k of
        Inl e \<Rightarrow> Inl e
      | Inr ks \<Rightarrow>
         (case iterencode isep ksep v of
            Inl e \<Rightarrow> Inl e
          | Inr x \<Rightarrow> (case iterencode_dict isep ksep kvs of
                       Inl e \<Rightarrow> Inl e
                     | Inr xs \<Rightarrow> Inr ((encode_basestring_ascii ks @ ksep @ x) # xs))))"

definition json_dumps :: "pyval \<Rightarrow> error + pyval" where
  "json_dumps obj =
     (case iterencode (ascii '','') (ascii '':'') obj of
        Inl e \<Rightarrow> Inl e
      | Inr s \<Rightarrow> Inr (PStr s))"

section \<open>\<open>generate_signature\<close>\<close>

fun is_dict :: "pyval \<Rightarrow> bool" where
  "is_dict (PDict kvs) = True"
| "is_dict _ = False"

definition generate_signature :: "pyval \<Rightarrow> pyval \<Rightarrow> error + str" where
  "generate_signature webhook_secret payload =
     (case (if is_dict payload then json_dumps payload else Inr payload) of
        Inl e \<Rightarrow> Inl e
      | Inr payload_str \<Rightarrow>
         (case py_encode webhook_secret of
            Inl e \<Rightarrow> Inl e
          | Inr secret_bytes \<Rightarrow>
             (case py_encode payload_str of
                Inl e \<Rightarrow> Inl e
              | Inr payload_bytes \<Rightarrow> Inr (hexdigest (hmac_new secret_bytes payload_bytes)))))"

text \<open>The bytes that are hashed: the payload stage of \<open>generate_signature\<close>
  (the \<open>isinstance\<close> test, \<open>json.dumps\<close> and \<open>payload_str.encode\<close>) on its own.\<close>

definition canonical_bytes :: "pyval \<Rightarrow> error + byte list" where
  "canonical_bytes payload =
     (case (if is_dict payload then json_dumps payload else Inr payload) of
        Inl e \<Rightarrow> Inl e
      | Inr payload_str \<Rightarrow> py_encode payload_str)"

section \<open>What the encoder accepts\<close>

text \<open>A value is serializable when it holds no \<open>bytes\<close> object, no reference to an
  enclosing container and no key of an unsupported type. Floats that are not finite are
  serializable, since \<open>allow_nan\<close> is left at its default.\<close>

fun serializable :: "pyval \<Rightarrow> bool"
  and serializable_list :: "pyval list \<Rightarrow> bool"
  and serializable_dict :: "(pykey \<times> pyval) list \<Rightarrow> bool"
where
  "serializable (PBytes b) = False"
| "serializable PCycle = False"
| "serializable (PList vs) = serializable_list vs"
| "serializable (PDict kvs) = serializable_dict kvs"
| "serializable _ = True"
| "serializable_list [] = True"
| "serializable_list (v # vs) = (serializable v \<and> serializable_list vs)"
| "serializable_dict [] = True"
| "serializable_dict ((k, v) # kvs) = (k \<noteq> KOther \<and> serializable v \<and> serializable_dict kvs)"

text \<open>Whether some string or string key inside a value holds a space.\<close>

fun key_has_space :: "pykey \<Rightarrow> bool" where
  "key_has_space (KStr s) = (32 \<in> set s)"
| "key_has_space _ = False"

fun has_space :: "pyval \<Rightarrow> bool"
  and has_space_list :: "pyval list \<Rightarrow> bool"
  and has_space_dict :: "(pykey \<times> pyval) list \<Rightarrow> bool"
where
  "has_space (PStr s) = (32 \<in> set s)"
| "has_space (PList vs) = has_space_list vs"
| "has_space (PDict kvs) = has_space_dict kvs"
| "has_space _ = False"
| "has_space_list [] = False"
| "has_space_list (v # vs) = (has_space v \<or> has_space_list vs)"
| "has_space_dict [] = False"
| "has_space_dict ((k, v) # kvs) = (key_has_space k \<or> has_space v \<or> has_space_dict kvs)"

text \<open>A character of the output: printable and not a space, or a space that the
  payload accounts for.\<close>

definition visible :: "bool \<Rightarrow> nat \<Rightarrow> bool" where
  "visible sp x = ((33 \<le> x \<and> x \<le> 126) \<or> (x = 32 \<and> sp))"

section \<open>Reading an escaped string back\<close>

text \<open>A Unicode scalar value is a code point that is not a surrogate. \<open>unesc\<close> reads one
  escaped character off the front of a text, the inverse of \<open>esc_char\<close> on scalar values;
  it serves to show that the quoted key of an item determines the key.\<close>

definition scalar :: "nat \<Rightarrow> bool" where
  "scalar c = (c < 0xD800 \<or> (0xE000 \<le> c \<and> c < 0x110000))"

text \<open>The value of a lowercase hexadecimal digit, and of four of them.\<close>

definition hexval :: "nat \<Rightarrow> nat" where
  "hexval d = (if d \<le> 57 then d - 48 else d - 87)"

fun unhex4 :: "str \<Rightarrow> nat" where
  "unhex4 (a # b # c # d # r) = hexval a * 4096 + hexval b * 256 + hexval c * 16 + hexval d"
| "unhex4 _ = 0"

fun unesc :: "str \<Rightarrow> (nat \<times> str) option" where
  "unesc [] = None"
| "unesc [x] = (if x = 0x5c then None else Some (x, []))"
| "unesc (x # y # r) =
     (if x \<noteq> 0x5c then Some (x, y # r)
      else if y = 0x75 then
        (let hi = unhex4 r in
         if 0xD800 \<le> hi \<and> hi < 0xDC00
         then Some (0x10000 + (hi - 0xD800) * 1024 + (unhex4 (drop 6 r) - 0xDC00), drop 10 r)
         else Some (hi, drop 4 r))
      else Some (if y = 0x62 then 0x08 else if y = 0x66 then 0x0c else if y = 0x6e then 0x0a
                 else if y = 0x72 then 0x0d else if y = 0x74 then 0x09 else y, r))"


text \<open>A dict key that is a string of scalar values.\<close>

fun text_key :: "pykey \<Rightarrow> bool" where
  "text_key (KStr s) = (\<forall>c \<in> set s. scalar c)"
| "text_key _ = False"


section \<open>The verifier\<close>

text \<open>
  Modelled from the spec: the verifier (\<open>verify\<close>) and its constant-time comparison are
  not among the source files. The spec has it recompute the expected tag with the signer
  and compare it to the received one in constant time, every failure being the one
  rejection "signature mismatch". The comparison is the usual one: a length check, then
  the bitwise OR of the XOR of every pair of characters, with no early exit.
\<close>

datatype verdict = Accept | Reject str

fun ct_diff :: "str \<Rightarrow> str \<Rightarrow> nat" where
  "ct_diff (x # xs) (y # ys) = (x XOR y) OR ct_diff xs ys"
| "ct_diff _ _ = 0"

definition constant_time_eq :: "str \<Rightarrow> str \<Rightarrow> bool" where
  "constant_time_eq a b = (length a = length b \<and> ct_diff a b = 0)"

definition verify :: "pyval \<Rightarrow> pyval \<Rightarrow> str \<Rightarrow> verdict" where
  "verify secret body received =
     (case generate_signature secret body of
        Inl e \<Rightarrow> Reject (ascii ''signature mismatch'')
      | Inr expected \<Rightarrow>
          if constant_time_eq expected received then Accept
          else Reject (ascii ''signature mismatch''))"

section \<open>Properties of the hash\<close>

lemma length_round256: "length (round256 s kw) = length s"
  by (induction s kw rule: round256.induct) (simp_all add: Let_def)

lemma length_foldl_round256: "length (foldl round256 s kws) = length s"
  by (induction kws arbitrary: s) (simp_all add: length_round256)

lemma length_compress: "length (compress hs block) = length hs"
  by (simp add: compress_def length_foldl_round256)

lemma length_sha_blocks: "length (sha_blocks hs bs) = length hs"
proof (induction hs bs rule: sha_blocks.induct)
  case (1 hs bs)
  show ?case
  proof (cases "length bs < 64")
    case True
    then show ?thesis by (simp add: sha_blocks.simps)
  next
    case False
    with "1" show ?thesis
      by (subst sha_blocks.simps) (simp add: length_compress)
  qed
qed

lemma length_concat_bytes_of_u32: "length (concat (map bytes_of_u32 ws)) = 4 * length ws"
  by (induction ws) (simp_all add: bytes_of_u32_def)

lemma length_sha256: "length (sha256 m) = 32"
  by (simp add: sha256_def length_concat_bytes_of_u32 length_sha_blocks H256_def)

lemma sha256_bytes: "b \<in> set (sha256 m) \<Longrightarrow> b < 256"
  by (auto simp: sha256_def bytes_of_u32_def)

lemma length_hmac_new: "length (hmac_new key msg) = 32"
  by (simp add: hmac_new_def Let_def length_sha256)

lemma hmac_new_bytes: "b \<in> set (hmac_new key msg) \<Longrightarrow> b < 256"
  by (auto simp: hmac_new_def Let_def dest: sha256_bytes)

lemma length_hexdigest: "length (hexdigest bs) = 2 * length bs"
  by (induction bs) (simp_all add: hexdigest_def)

lemma hexdigit_lower: "n < 16 \<Longrightarrow> hexdigit n \<in> set (ascii ''0123456789abcdef'')"
  unfolding hexdigit_def by (rule nth_mem) (simp add: ascii_def)

lemma hexdigest_chars:
  assumes "\<forall>b \<in> set bs. b < 256" and "c \<in> set (hexdigest bs)"
  shows "c \<in> set (ascii ''0123456789abcdef'')"
proof -
  from assms(2) obtain b where b: "b \<in> set bs"
    and c: "c = hexdigit (b div 16) \<or> c = hexdigit (b mod 16)"
    by (auto simp: hexdigest_def)
  from b assms(1) have "b div 16 < 16" by (simp add: less_mult_imp_div_less)
  moreover have "b mod 16 < 16" by simp
  ultimately show ?thesis using c hexdigit_lower by blast
qed

section \<open>Properties of \<open>generate_signature\<close>\<close>

lemma py_encode_errors: "py_encode x = Inl e \<Longrightarrow> e = AttributeError \<or> e = UnicodeEncodeError"
proof (cases x)
  case (PStr s)
  have "str_encode s = Inl e \<Longrightarrow> e = UnicodeEncodeError"
    by (induction s) (auto simp: utf8_cp_def split: if_splits sum.splits)
  with PStr show "py_encode x = Inl e \<Longrightarrow> ?thesis" by simp
qed simp_all

lemma iterencode_errors:
  "iterencode isep ksep v = Inl e \<Longrightarrow> e = TypeError \<or> e = ValueError"
  "iterencode_list isep ksep vs = Inl e \<Longrightarrow> e = TypeError \<or> e = ValueError"
  "iterencode_dict isep ksep kvs = Inl e \<Longrightarrow> e = TypeError \<or> e = ValueError"
proof (induction isep ksep v and isep ksep vs and isep ksep kvs
       rule: iterencode_iterencode_list_iterencode_dict.induct)
  case (14 isep ksep k v kvs)
  then show ?case by (cases k rule: keystr.cases) (auto split: sum.splits)
qed (auto split: sum.splits)

lemma json_dumps_errors: "json_dumps v = Inl e \<Longrightarrow> e = TypeError \<or> e = ValueError"
  by (auto simp: json_dumps_def split: sum.splits dest: iterencode_errors(1))

lemma json_dumps_str: "json_dumps v = Inr s \<Longrightarrow> \<exists>t. s = PStr t"
  by (auto simp: json_dumps_def split: sum.splits)

lemma generate_signature_canonical:
  "generate_signature secret payload =
     (case (if is_dict payload then json_dumps payload else Inr payload) of
        Inl e \<Rightarrow> Inl e
      | Inr ps \<Rightarrow>
         (case py_encode secret of
            Inl e \<Rightarrow> Inl e
          | Inr kb \<Rightarrow>
             (case canonical_bytes payload of
                Inl e \<Rightarrow> Inl e
              | Inr pb \<Rightarrow> Inr (hexdigest (hmac_new kb pb)))))"
  by (simp add: generate_signature_def canonical_bytes_def split: sum.splits)

lemma ct_diff_same: "ct_diff xs xs = 0"
  by (induction xs) simp_all

lemma constant_time_eq_refl: "constant_time_eq xs xs"
  by (simp add: constant_time_eq_def ct_diff_same)

section \<open>Properties of the encoder\<close>

lemma keystr_ok: "k \<noteq> KOther \<Longrightarrow> \<exists>ks. keystr k = Inr ks"
  by (cases k rule: keystr.cases) simp_all

lemma keystr_error: "keystr k = Inl e \<Longrightarrow> k = KOther"
  by (cases k rule: keystr.cases) simp_all

lemma iterencode_serializable:
  "(\<exists>s. iterencode isep ksep v = Inr s) = serializable v"
  "(\<exists>xs. iterencode_list isep ksep vs = Inr xs) = serializable_list vs"
  "(\<exists>xs. iterencode_dict isep ksep kvs = Inr xs) = serializable_dict kvs"
proof (induction isep ksep v and isep ksep vs and isep ksep kvs
       rule: iterencode_iterencode_list_iterencode_dict.induct)
  case (14 isep ksep k v kvs)
  show ?case
  proof (cases "keystr k")
    case (Inl e)
    then show ?thesis by (simp add: keystr_error)
  next
    case (Inr ks)
    then have "k \<noteq> KOther" by auto
    with Inr "14.IH"(1) [OF Inr] "14.IH"(2) [OF Inr] show ?thesis
      by (cases "iterencode isep ksep v"; cases "iterencode_dict isep ksep kvs") auto
  qed
next
  case (12 isep ksep v vs)
  then show ?case
    by (cases "iterencode isep ksep v"; cases "iterencode_list isep ksep vs") auto
qed (auto split: sum.splits)

lemma visible_mono: "visible a x \<Longrightarrow> (a \<Longrightarrow> b) \<Longrightarrow> visible b x"
  by (auto simp: visible_def)

lemma hexdigit_visible: "n < 16 \<Longrightarrow> visible False (hexdigit n)"
proof -
  assume "n < 16"
  then have "hexdigit n \<in> set (ascii ''0123456789abcdef'')"
    unfolding hexdigit_def by (intro nth_mem) (simp add: ascii_def)
  then show ?thesis by (auto simp: ascii_def visible_def)
qed

lemma hex4_visible: "x \<in> set (hex4 n) \<Longrightarrow> visible False x"
  by (auto simp: hex4_def intro!: hexdigit_visible)

lemma esc_char_visible: "x \<in> set (esc_char c) \<Longrightarrow> visible (c = 32) x"
  by (auto simp: esc_char_def ascii_def split: if_splits dest!: hex4_visible)
     (auto simp: visible_def)

lemma encode_basestring_ascii_visible:
  "x \<in> set (encode_basestring_ascii s) \<Longrightarrow> visible (32 \<in> set s) x"
  by (auto simp: encode_basestring_ascii_def dest!: esc_char_visible)
     (auto simp: visible_def)

lemma digits_visible: "x \<in> set (digits n) \<Longrightarrow> visible False x"
proof (induction n arbitrary: x rule: digits.induct)
  case (1 n)
  show ?case
  proof (cases "n < 10")
    case True
    with "1.prems" show ?thesis by (simp add: digits.simps visible_def)
  next
    case False
    with "1.prems" have "x \<in> set (digits (n div 10)) \<or> x = 48 + n mod 10"
      by (subst (asm) digits.simps) auto
    then show ?thesis
    proof
      assume "x \<in> set (digits (n div 10))"
      with False "1.IH" show ?thesis by simp
    next
      assume "x = 48 + n mod 10"
      moreover have "n mod 10 < 10" by simp
      ultimately show ?thesis by (simp add: visible_def)
    qed
  qed
qed

lemma intstr_visible: "x \<in> set (intstr i) \<Longrightarrow> visible False x"
  using digits_visible [of x] by (auto simp: intstr_def visible_def split: if_splits)

lemma fsym_code_visible: "visible False (fsym_code f)"
  by (cases f) (simp_all add: visible_def)

lemma floatstr_visible: "x \<in> set (floatstr f) \<Longrightarrow> visible False x"
proof (cases f)
  case (Finite r)
  then show "x \<in> set (floatstr f) \<Longrightarrow> ?thesis" by (auto simp: fsym_code_visible)
qed (auto simp: ascii_def visible_def)

lemma keystr_space: "keystr k = Inr ks \<Longrightarrow> 32 \<in> set ks \<Longrightarrow> key_has_space k"
proof (cases k rule: keystr.cases)
  case (2 f)
  then show "keystr k = Inr ks \<Longrightarrow> 32 \<in> set ks \<Longrightarrow> ?thesis"
    using floatstr_visible [of 32 f] by (auto simp: visible_def)
next
  case (6 i)
  then show "keystr k = Inr ks \<Longrightarrow> 32 \<in> set ks \<Longrightarrow> ?thesis"
    using intstr_visible [of 32 i] by (auto simp: visible_def)
qed (auto simp: ascii_def)

lemma keystr_visible:
  "keystr k = Inr ks \<Longrightarrow> x \<in> set (encode_basestring_ascii ks) \<Longrightarrow> visible (key_has_space k) x"
  by (erule visible_mono [OF encode_basestring_ascii_visible]) (rule keystr_space)

lemma set_join: "x \<in> set (join sep xs) \<Longrightarrow> x \<in> set sep \<or> (\<exists>t \<in> set xs. x \<in> set t)"
  by (induction sep xs rule: join.induct) auto

lemma iterencode_bool_visible:
  "iterencode isep ksep (PBool b) = Inr s \<Longrightarrow> x \<in> set s \<Longrightarrow> 33 \<le> x \<and> x \<le> 126"
  by (cases b) (auto simp: ascii_def)

lemma iterencode_visible:
  "iterencode (ascii '','') (ascii '':'') v = Inr s \<Longrightarrow> x \<in> set s \<Longrightarrow> visible (has_space v) x"
  "iterencode_list (ascii '','') (ascii '':'') vs = Inr xs \<Longrightarrow> t \<in> set xs \<Longrightarrow> x \<in> set t
     \<Longrightarrow> visible (has_space_list vs) x"
  "iterencode_dict (ascii '','') (ascii '':'') kvs = Inr xs \<Longrightarrow> t \<in> set xs \<Longrightarrow> x \<in> set t
     \<Longrightarrow> visible (has_space_dict kvs) x"
proof (induction v and vs and kvs arbitrary: s x and xs t x and xs t x
       rule: serializable_serializable_list_serializable_dict.induct)
  case (3 vs)
  from "3.prems" obtain xs where xs: "iterencode_list (ascii '','') (ascii '':'') vs = Inr xs"
    and s: "s = ascii ''['' @ join (ascii '','') xs @ ascii '']''"
    by (auto split: sum.splits)
  from s "3.prems"(2) have "x \<in> set (ascii ''[,]'') \<or> (\<exists>t \<in> set xs. x \<in> set t)"
    by (auto simp: ascii_def dest: set_join)
  then show ?case
  proof
    assume "x \<in> set (ascii ''[,]'')"
    then show ?thesis by (auto simp: ascii_def visible_def)
  next
    assume "\<exists>t \<in> set xs. x \<in> set t"
    with "3.IH" xs show ?thesis by auto
  qed
next
  case (4 kvs)
  from "4.prems" obtain xs where xs: "iterencode_dict (ascii '','') (ascii '':'') kvs = Inr xs"
    and s: "s = ascii ''{'' @ join (ascii '','') xs @ ascii ''}''"
    by (auto split: sum.splits)
  from s "4.prems"(2) have "x \<in> set (ascii ''{,}'') \<or> (\<exists>t \<in> set xs. x \<in> set t)"
    by (auto simp: ascii_def dest: set_join)
  then show ?case
  proof
    assume "x \<in> set (ascii ''{,}'')"
    then show ?thesis by (auto simp: ascii_def visible_def)
  next
    assume "\<exists>t \<in> set xs. x \<in> set t"
    with "4.IH" xs show ?thesis by auto
  qed
next
  case (7 v vs)
  from "7.prems"(1) obtain y ys where y: "iterencode (ascii '','') (ascii '':'') v = Inr y"
    and ys: "iterencode_list (ascii '','') (ascii '':'') vs = Inr ys" and xs: "xs = y # ys"
    by (auto split: sum.splits)
  from xs "7.prems"(2) have "t = y \<or> t \<in> set ys" by auto
  then show ?case
  proof
    assume "t = y"
    with y "7.prems"(3) "7.IH"(1) have "visible (has_space v) x" by blast
    then show ?thesis by (rule visible_mono) simp
  next
    assume "t \<in> set ys"
    with ys "7.prems"(3) "7.IH"(2) have "visible (has_space_list vs) x" by blast
    then show ?thesis by (rule visible_mono) simp
  qed
next
  case (9 k v kvs)
  from "9.prems"(1) obtain ks y ys where ks: "keystr k = Inr ks"
    and y: "iterencode (ascii '','') (ascii '':'') v = Inr y"
    and ys: "iterencode_dict (ascii '','') (ascii '':'') kvs = Inr ys"
    and xs: "xs = (encode_basestring_ascii ks @ ascii '':'' @ y) # ys"
    by (auto split: sum.splits)
  from xs "9.prems"(2) have "t = encode_basestring_ascii ks @ ascii '':'' @ y \<or> t \<in> set ys"
    by auto
  then show ?case
  proof
    assume "t = encode_basestring_ascii ks @ ascii '':'' @ y"
    with "9.prems"(3)
    have "x \<in> set (encode_basestring_ascii ks) \<or> x = 58 \<or> x \<in> set y"
      by (auto simp: ascii_def)
    then show ?thesis
    proof (elim disjE)
      assume "x \<in> set (encode_basestring_ascii ks)"
      with ks have "visible (key_has_space k) x" by (rule keystr_visible)
      then show ?thesis by (rule visible_mono) simp
    next
      assume "x = 58"
      then show ?thesis by (simp add: visible_def)
    next
      assume "x \<in> set y"
      with y "9.IH"(1) have "visible (has_space v) x" by blast
      then show ?thesis by (rule visible_mono) simp
    qed
  next
    assume "t \<in> set ys"
    with ys "9.prems"(3) "9.IH"(2) have "visible (has_space_dict kvs) x" by blast
    then show ?thesis by (rule visible_mono) simp
  qed
qed (auto simp: ascii_def visible_def
      dest: intstr_visible floatstr_visible encode_basestring_ascii_visible iterencode_bool_visible)

lemma str_encode_ascii: "\<forall>x \<in> set s. x < 128 \<Longrightarrow> str_encode s = Inr s"
  by (induction s) (simp_all add: utf8_cp_def)

lemma iterencode_ascii:
  assumes "iterencode (ascii '','') (ascii '':'') v = Inr s"
  shows "str_encode s = Inr s"
proof (rule str_encode_ascii, rule ballI)
  fix x assume "x \<in> set s"
  with assms have "visible (has_space v) x" by (rule iterencode_visible(1))
  then show "x < 128" by (auto simp: visible_def)
qed

lemma canonical_bytes_dict:
  "iterencode (ascii '','') (ascii '':'') (PDict kvs) = Inr s \<Longrightarrow> canonical_bytes (PDict kvs) = Inr s"
  by (simp add: canonical_bytes_def json_dumps_def iterencode_ascii del: iterencode.simps)

lemma iterencode_dict_items:
  "iterencode_dict isep ksep kvs = Inr xs \<Longrightarrow>
   list_all2 (\<lambda>(k, v) x. \<exists>ks y. keystr k = Inr ks \<and> iterencode isep ksep v = Inr y
                              \<and> x = encode_basestring_ascii ks @ ksep @ y) kvs xs"
proof (induction kvs arbitrary: xs)
  case Nil
  then show ?case by simp
next
  case (Cons kv kvs)
  obtain k v where kv: "kv = (k, v)" by (cases kv)
  from Cons.prems kv obtain ks y ys where "keystr k = Inr ks" "iterencode isep ksep v = Inr y"
    "iterencode_dict isep ksep kvs = Inr ys" "xs = (encode_basestring_ascii ks @ ksep @ y) # ys"
    by (auto split: sum.splits)
  with Cons.IH kv show ?case by simp
qed

lemma signature_format:
  "length (hexdigest (hmac_new key msg)) = 64 \<and>
   set (hexdigest (hmac_new key msg)) \<subseteq> set (ascii ''0123456789abcdef'')"
proof
  show "length (hexdigest (hmac_new key msg)) = 64"
    by (simp add: length_hexdigest length_hmac_new)
  have "\<forall>b \<in> set (hmac_new key msg). b < 256" by (blast dest: hmac_new_bytes)
  then show "set (hexdigest (hmac_new key msg)) \<subseteq> set (ascii ''0123456789abcdef'')"
    by (blast dest: hexdigest_chars)
qed


lemmas json_eval = json_dumps_def ascii_def encode_basestring_ascii_def esc_char_def intstr_def
  digits.simps utf8_cp_def


section \<open>The order of the items\<close>

lemma hexval_hexdigit: "d < 16 \<Longrightarrow> hexval (hexdigit d) = d"
proof -
  have "\<forall>d \<in> set [0..<16]. hexval (hexdigit d) = d"
    by (simp add: upt_rec hexdigit_def ascii_def hexval_def)
  moreover assume "d < 16"
  ultimately show ?thesis by simp
qed

lemma hex_digits_sum:
  fixes n :: nat
  assumes "n < 65536"
  shows "n div 4096 mod 16 * 4096 + n div 256 mod 16 * 256 + n div 16 mod 16 * 16 + n mod 16 = n"
proof -
  have a: "n mod 256 = 16 * (n div 16 mod 16) + n mod 16"
    using mod_mult2_eq [of n 16 16] by simp
  have b: "n mod 4096 = 256 * (n div 256 mod 16) + n mod 256"
    using mod_mult2_eq [of n 256 16] by simp
  have c: "n mod 65536 = 4096 * (n div 4096 mod 16) + n mod 4096"
    using mod_mult2_eq [of n 4096 16] by simp
  from assms have "n mod 65536 = n" by simp
  with a b c show ?thesis by simp
qed

lemma unhex4_hex4:
  assumes "n < 65536"
  shows "unhex4 (hex4 n @ r) = n"
proof -
  have "unhex4 (hex4 n @ r)
      = n div 4096 mod 16 * 4096 + n div 256 mod 16 * 256 + n div 16 mod 16 * 16 + n mod 16"
    by (simp add: hex4_def hexval_hexdigit)
  also have "\<dots> = n" using assms by (rule hex_digits_sum)
  finally show ?thesis .
qed

lemma length_hex4: "length (hex4 n) = 4"
  by (simp add: hex4_def)

lemma unesc_esc_char:
  assumes "scalar c"
  shows "unesc (esc_char c @ r) = Some (c, r)"
proof -
  consider (named) "c \<in> {0x5c, 0x22, 0x08, 0x0c, 0x0a, 0x0d, 0x09}"
    | (plain) "c \<notin> {0x5c, 0x22, 0x08, 0x0c, 0x0a, 0x0d, 0x09}" "0x20 \<le> c" "c \<le> 0x7e"
    | (bmp) "c \<notin> {0x5c, 0x22, 0x08, 0x0c, 0x0a, 0x0d, 0x09}" "\<not> (0x20 \<le> c \<and> c \<le> 0x7e)" "c < 0x10000"
    | (astral) "0x10000 \<le> c"
    by fastforce
  then show ?thesis
  proof cases
    case named
    then show ?thesis by (auto simp: esc_char_def ascii_def)
  next
    case plain
    then have "esc_char c = [c]" by (simp add: esc_char_def)
    with plain show ?thesis by (cases r) simp_all
  next
    case bmp
    then have e: "esc_char c = [0x5c, 0x75] @ hex4 c" by (simp add: esc_char_def ascii_def)
    from assms have s: "\<not> (0xD800 \<le> c \<and> c < 0xDC00)" by (auto simp: scalar_def)
    from bmp have u: "unhex4 (hex4 c @ r) = c" by (simp add: unhex4_hex4)
    from e s u show ?thesis by (simp add: Let_def length_hex4)
  next
    case astral
    define m where "m = c - 0x10000"
    from astral assms have m: "m < 1048576" and c: "c = 0x10000 + m"
      by (simp_all add: scalar_def m_def)
    define hi where "hi = 0xd800 + m div 1024 mod 1024"
    define lo where "lo = 0xdc00 + m mod 1024"
    from m have hi: "hi = 0xd800 + m div 1024" "0xD800 \<le> hi" "hi < 0xDC00" "hi < 65536"
      by (simp_all add: hi_def)
    have lo: "0xDC00 \<le> lo" "lo < 65536" by (simp_all add: lo_def)
    from astral have e: "esc_char c = [0x5c, 0x75] @ hex4 hi @ [0x5c, 0x75] @ hex4 lo"
      by (simp add: esc_char_def ascii_def hi_def lo_def m_def)
    have u1: "unhex4 (hex4 hi @ [0x5c, 0x75] @ hex4 lo @ r) = hi"
      using hi(4) by (rule unhex4_hex4)
    have u2: "unhex4 (hex4 lo @ r) = lo" using lo(2) by (rule unhex4_hex4)
    have "unesc (esc_char c @ r)
        = Some (0x10000 + (hi - 0xD800) * 1024 + (lo - 0xDC00), r)"
      using e u1 u2 hi(2,3) by (simp add: Let_def length_hex4)
    also have "0x10000 + (hi - 0xD800) * 1024 + (lo - 0xDC00) = c"
      using hi(1) c by (simp add: lo_def)
    finally show ?thesis .
  qed
qed

lemma unesc_plain: "x \<noteq> 0x5c \<Longrightarrow> unesc (x # r) = Some (x, r)"
  by (cases r) simp_all

lemma esc_char_not_quote: "esc_char c @ r \<noteq> 0x22 # r'"
  by (auto simp: esc_char_def ascii_def hex4_def)

lemma esc_concat_prefix:
  assumes "\<forall>c \<in> set k. scalar c" and "\<forall>c \<in> set k'. scalar c"
    and "concat (map esc_char k) @ 0x22 # r = concat (map esc_char k') @ 0x22 # r'"
  shows "k = k' \<and> r = r'"
  using assms
proof (induction k arbitrary: k')
  case Nil
  then show ?case
  proof (cases k')
    case (Cons c' cs')
    with Nil.prems(3) have "esc_char c' @ (concat (map esc_char cs') @ 0x22 # r') = 0x22 # r"
      by simp
    then show ?thesis by (simp add: esc_char_not_quote)
  qed simp
next
  case (Cons c cs)
  show ?case
  proof (cases k')
    case Nil
    with Cons.prems(3) have "esc_char c @ (concat (map esc_char cs) @ 0x22 # r) = 0x22 # r'"
      by simp
    then show ?thesis by (simp add: esc_char_not_quote)
  next
    case (Cons c' cs')
    let ?A = "concat (map esc_char cs) @ 0x22 # r"
    let ?B = "concat (map esc_char cs') @ 0x22 # r'"
    from Cons.prems(3) Cons have eq: "esc_char c @ ?A = esc_char c' @ ?B" by simp
    from Cons.prems(1) have "unesc (esc_char c @ ?A) = Some (c, ?A)"
      by (simp add: unesc_esc_char)
    moreover from Cons.prems(2) Cons have "unesc (esc_char c' @ ?B) = Some (c', ?B)"
      by (simp add: unesc_esc_char)
    moreover from eq have "unesc (esc_char c @ ?A) = unesc (esc_char c' @ ?B)"
      by (rule arg_cong)
    ultimately have "Some (c, ?A) = Some (c', ?B)" by (simp only:)
    then have cc: "c = c'" and AB: "?A = ?B" by blast+
    from Cons.prems(1) have "\<forall>c \<in> set cs. scalar c" by simp
    moreover from Cons.prems(2) Cons have "\<forall>c \<in> set cs'. scalar c" by simp
    ultimately have "cs = cs' \<and> r = r'" using AB by (rule Cons.IH)
    with cc Cons show ?thesis by simp
  qed
qed

lemma encode_basestring_ascii_prefix:
  assumes "\<forall>c \<in> set s. scalar c" and "\<forall>c \<in> set s'. scalar c"
    and "encode_basestring_ascii s @ r = encode_basestring_ascii s' @ r'"
  shows "s = s' \<and> r = r'"
  using assms(3) esc_concat_prefix [OF assms(1,2), of r r']
  by (simp add: encode_basestring_ascii_def)

lemma join_Cons: "join sep (x # xs) = x @ (if xs = [] then [] else sep @ join sep xs)"
  by (cases xs) simp_all

lemma iterencode_dict_length: "iterencode_dict isep ksep kvs = Inr xs \<Longrightarrow> length xs = length kvs"
  by (drule iterencode_dict_items) (simp add: list_all2_lengthD)

lemma dict_items_order:
  assumes "\<forall>kv \<in> set kvs1. text_key (fst kv)"
    and "distinct (map fst kvs1)" and "distinct (map fst kvs2)"
    and "set kvs1 = set kvs2"
    and "iterencode_dict isep ksep kvs1 = Inr xs1"
    and "iterencode_dict isep ksep kvs2 = Inr xs2"
    and "join isep xs1 = join isep xs2"
  shows "kvs1 = kvs2"
  using assms
proof (induction kvs1 arbitrary: kvs2 xs1 xs2)
  case Nil
  then show ?case by simp
next
  case (Cons kv1 r1)
  from Cons.prems(4) obtain kv2 r2 where kvs2: "kvs2 = kv2 # r2" by (cases kvs2) auto
  obtain k1 v1 where kv1: "kv1 = (k1, v1)" by (cases kv1)
  obtain k2 v2 where kv2: "kv2 = (k2, v2)" by (cases kv2)
  from Cons.prems(1) kv1 obtain s1 where k1: "k1 = KStr s1" and s1: "\<forall>c \<in> set s1. scalar c"
    by (cases k1) auto
  from Cons.prems(1,4) kvs2 kv2 have "text_key k2" by force
  then obtain s2 where k2: "k2 = KStr s2" and s2: "\<forall>c \<in> set s2. scalar c"
    by (cases k2) auto
  from Cons.prems(5) kv1 k1 obtain y1 ys1 where y1: "iterencode isep ksep v1 = Inr y1"
    and ys1: "iterencode_dict isep ksep r1 = Inr ys1"
    and xs1: "xs1 = (encode_basestring_ascii s1 @ ksep @ y1) # ys1"
    by (auto split: sum.splits)
  from Cons.prems(6) kvs2 kv2 k2 obtain y2 ys2 where y2: "iterencode isep ksep v2 = Inr y2"
    and ys2: "iterencode_dict isep ksep r2 = Inr ys2"
    and xs2: "xs2 = (encode_basestring_ascii s2 @ ksep @ y2) # ys2"
    by (auto split: sum.splits)
  let ?R1 = "if ys1 = [] then [] else isep @ join isep ys1"
  let ?R2 = "if ys2 = [] then [] else isep @ join isep ys2"
  from Cons.prems(7) xs1 xs2
  have "encode_basestring_ascii s1 @ (ksep @ y1 @ ?R1)
      = encode_basestring_ascii s2 @ (ksep @ y2 @ ?R2)"
    by (simp only: join_Cons append_assoc)
  with s1 s2 have ss: "s1 = s2" and rest: "ksep @ y1 @ ?R1 = ksep @ y2 @ ?R2"
    using encode_basestring_ascii_prefix by blast+
  from ss k1 k2 have kk: "k1 = k2" by simp
  have "(k2, v2) \<in> set (kv1 # r1)" using Cons.prems(4) kvs2 kv2 by simp
  moreover have "(k2, v2) \<notin> set r1"
  proof
    assume "(k2, v2) \<in> set r1"
    then have "k2 \<in> fst ` set r1" by force
    with Cons.prems(2) kv1 kk show False by simp
  qed
  ultimately have vv: "v1 = v2" using kv1 by simp
  with y1 y2 have "y1 = y2" by simp
  with rest have R: "?R1 = ?R2" by simp
  from Cons.prems(2) kv1 have n1: "kv1 \<notin> set r1" by force
  from Cons.prems(3) kvs2 kv2 have n2: "kv2 \<notin> set r2" by force
  from kk vv kv1 kv2 have same: "kv1 = kv2" by simp
  from Cons.prems(4) kvs2 same n1 n2 have sets: "set r1 = set r2" by auto
  from ys1 have l1: "length ys1 = length r1" by (rule iterencode_dict_length)
  from ys2 have l2: "length ys2 = length r2" by (rule iterencode_dict_length)
  from sets have "(r1 = []) = (r2 = [])" by auto
  with l1 l2 have "(ys1 = []) = (ys2 = [])" by auto
  with R have j: "join isep ys1 = join isep ys2" by (cases "ys1 = []") auto
  have "r1 = r2"
  proof (rule Cons.IH)
    show "\<forall>kv \<in> set r1. text_key (fst kv)" using Cons.prems(1) by simp
    show "distinct (map fst r1)" using Cons.prems(2) by simp
    show "distinct (map fst r2)" using Cons.prems(3) kvs2 by simp
  qed (rule sets ys1 ys2 j)+
  with same kvs2 show ?case by simp
qed

lemma serializable_dict_set:
  "serializable_dict kvs = (\<forall>kv \<in> set kvs. fst kv \<noteq> KOther \<and> serializable (snd kv))"
  by (induction kvs) auto

section \<open>The claims\<close>


text \<open>
  Claim C10. A payload that is not a dict is used as it is: the bytes hashed are the
  \<open>encode\<close> of the argument itself, with no JSON serialization or check before it, and
  the result is the tag of those bytes under the encoded secret (or the error that
  \<open>encode\<close> raises: UnicodeEncodeError for a lone surrogate, AttributeError for a value
  that is not a \<open>str\<close>).
\<close>

theorem generate_signature_non_dict_verbatim:
  "\<not> is_dict payload \<Longrightarrow>
   canonical_bytes payload = py_encode payload \<and>
   generate_signature webhook_secret payload =
     (case py_encode webhook_secret of
        Inl e \<Rightarrow> Inl e
      | Inr secret_bytes \<Rightarrow>
         (case py_encode payload of
            Inl e \<Rightarrow> Inl e
          | Inr payload_bytes \<Rightarrow> Inr (hexdigest (hmac_new secret_bytes payload_bytes))))"
  by (simp add: generate_signature_def canonical_bytes_def)

theorem generate_signature_non_dict_verbatim_witness:
  \<open>\<not> is_dict (PStr (ascii ''{ "a" : 1 }'')) \<and>
   canonical_bytes (PStr (ascii ''{ "a" : 1 }'')) = Inr (ascii ''{ "a" : 1 }'') \<and>
   generate_signature (PStr (ascii ''k'')) (PStr (ascii ''{ "a" : 1 }''))
     = Inr (hexdigest (hmac_new (ascii ''k'') (ascii ''{ "a" : 1 }'')))\<close>
  using generate_signature_non_dict_verbatim
          [of \<open>PStr (ascii ''{ "a" : 1 }'')\<close> \<open>PStr (ascii ''k'')\<close>]
  by (simp add: ascii_def utf8_cp_def)

text \<open>
  Claim C9. When \<open>json.dumps\<close> turns the dict payload into the compact string \<open>s\<close>,
  signing the dict and signing \<open>s\<close> give the same result, for every secret.
\<close>

theorem generate_signature_preserialized:
  "json_dumps (PDict kvs) = Inr s \<Longrightarrow>
   generate_signature secret (PDict kvs) = generate_signature secret s"
  by (auto simp: generate_signature_def dest: json_dumps_str)

theorem generate_signature_preserialized_witness:
  \<open>json_dumps (PDict [(KStr (ascii ''a''), PInt 1), (KStr (ascii ''b''), PStr (ascii ''x''))])
     = Inr (PStr (ascii ''{"a":1,"b":"x"}'')) \<and>
   generate_signature (PStr (ascii ''whsec_test''))
       (PDict [(KStr (ascii ''a''), PInt 1), (KStr (ascii ''b''), PStr (ascii ''x''))])
     = generate_signature (PStr (ascii ''whsec_test'')) (PStr (ascii ''{"a":1,"b":"x"}''))\<close>
proof -
  have h: \<open>json_dumps (PDict [(KStr (ascii ''a''), PInt 1), (KStr (ascii ''b''), PStr (ascii ''x''))])
     = Inr (PStr (ascii ''{"a":1,"b":"x"}''))\<close>
    by (simp add: json_dumps_def ascii_def encode_basestring_ascii_def esc_char_def intstr_def
        digits.simps)
  from generate_signature_preserialized [OF h] h show ?thesis by blast
qed

text \<open>The payload stage either fails inside \<open>json.dumps\<close>, before the secret is
  touched, or hands a value to \<open>encode\<close>.\<close>

lemma payload_stage_cases:
  obtains (json_error) e where "(if is_dict x then json_dumps x else Inr x) = Inl e"
      and "canonical_bytes x = Inl e" and "e = TypeError \<or> e = ValueError"
      and "\<And>secret. generate_signature secret x = Inl e"
    | (encoded) ps where "(if is_dict x then json_dumps x else Inr x) = Inr ps"
      and "canonical_bytes x = py_encode ps"
proof (cases "if is_dict x then json_dumps x else Inr x")
  case (Inl e)
  then have "json_dumps x = Inl e" by (simp split: if_splits)
  then have "e = TypeError \<or> e = ValueError" by (rule json_dumps_errors)
  moreover from Inl have "canonical_bytes x = Inl e" by (simp add: canonical_bytes_def)
  moreover from Inl have "generate_signature secret x = Inl e" for secret
    by (simp add: generate_signature_def)
  ultimately show ?thesis using Inl json_error by blast
next
  case (Inr ps)
  then have "canonical_bytes x = py_encode ps" by (simp add: canonical_bytes_def)
  with Inr show ?thesis using encoded by blast
qed

text \<open>
  Claim C5. The result of \<open>generate_signature\<close> is a function of the secret and of the
  canonical bytes of the payload alone: two payloads with the same canonical bytes (the
  same payload twice, in particular) give the same result under the same secret.
\<close>

theorem generate_signature_deterministic:
  assumes eq: "canonical_bytes p = canonical_bytes q"
  shows "generate_signature secret p = generate_signature secret q"
proof (cases rule: payload_stage_cases [of p])
  case p: (json_error e)
  show ?thesis
  proof (cases rule: payload_stage_cases [of q])
    case (json_error e')
    with p eq show ?thesis by simp
  next
    case (encoded qs)
    with p eq have "py_encode qs = Inl e" by simp
    with p(3) show ?thesis by (auto dest: py_encode_errors)
  qed
next
  case p: (encoded ps)
  show ?thesis
  proof (cases rule: payload_stage_cases [of q])
    case (json_error e')
    with p eq have "py_encode ps = Inl e'" by simp
    with json_error(3) show ?thesis by (auto dest: py_encode_errors)
  next
    case (encoded qs)
    from p(1) encoded(1) show ?thesis
      by (simp only: generate_signature_canonical eq sum.case)
  qed
qed

theorem generate_signature_deterministic_witness:
  \<open>canonical_bytes (PDict [(KStr (ascii ''a''), PInt 1)]) = canonical_bytes (PStr (ascii ''{"a":1}'')) \<and>
   generate_signature (PStr (ascii ''k'')) (PDict [(KStr (ascii ''a''), PInt 1)])
     = generate_signature (PStr (ascii ''k'')) (PStr (ascii ''{"a":1}''))\<close>
proof -
  have h: \<open>canonical_bytes (PDict [(KStr (ascii ''a''), PInt 1)])
           = canonical_bytes (PStr (ascii ''{"a":1}''))\<close>
    by (simp add: canonical_bytes_def json_dumps_def ascii_def encode_basestring_ascii_def
        esc_char_def intstr_def digits.simps)
  from generate_signature_deterministic [OF h] h show ?thesis by blast
qed

text \<open>
  Claim C1 says that the empty secret is refused with InvalidSecretError. The code has no
  such check: \<open>''.encode('utf-8')\<close> is the empty byte string and \<open>hmac.new\<close> accepts
  an empty key, so the call returns a tag.
\<close>

theorem empty_secret_signs_counterexample:
  "generate_signature (PStr []) (PDict []) = Inr (hexdigest (hmac_new [] (ascii ''{}'')))"
  by (simp add: generate_signature_def json_dumps_def ascii_def utf8_cp_def)

text \<open>
  Claim C1, as the code has it: with the empty string as secret, \<open>generate_signature\<close>
  raises nothing on account of the secret; it fails exactly when the payload stage fails,
  and otherwise returns the HMAC-SHA256 tag of the canonical bytes under the empty key.
\<close>

theorem empty_secret_signs:
  "generate_signature (PStr []) payload =
     (case canonical_bytes payload of
        Inl e \<Rightarrow> Inl e
      | Inr b \<Rightarrow> Inr (hexdigest (hmac_new [] b)))"
  by (simp add: generate_signature_def canonical_bytes_def split: sum.splits)

text \<open>
  Claim C7. For a non-empty secret and a body, both encodable as UTF-8, the signer returns
  a tag, and the verifier accepts the body with that tag under the same secret.
\<close>

theorem verify_round_trip:
  assumes "k \<noteq> []" and "str_encode k = Inr kb" and "str_encode body = Inr bb"
  shows "\<exists>s. generate_signature (PStr k) (PStr body) = Inr s
           \<and> verify (PStr k) (PStr body) s = Accept"
  using assms by (simp add: generate_signature_def verify_def constant_time_eq_refl)

theorem verify_round_trip_witness:
  \<open>ascii ''whsec_test'' \<noteq> [] \<and>
   str_encode (ascii ''whsec_test'') = Inr (ascii ''whsec_test'') \<and>
   str_encode (ascii ''{"a":1,"b":"x"}'') = Inr (ascii ''{"a":1,"b":"x"}'') \<and>
   (\<exists>s. generate_signature (PStr (ascii ''whsec_test'')) (PStr (ascii ''{"a":1,"b":"x"}'')) = Inr s
      \<and> verify (PStr (ascii ''whsec_test'')) (PStr (ascii ''{"a":1,"b":"x"}'')) s = Accept)\<close>
proof -
  have a: "ascii ''whsec_test'' \<noteq> []" by (simp add: ascii_def)
  have b: "str_encode (ascii ''whsec_test'') = Inr (ascii ''whsec_test'')"
    by (simp add: ascii_def utf8_cp_def)
  have c: \<open>str_encode (ascii ''{"a":1,"b":"x"}'') = Inr (ascii ''{"a":1,"b":"x"}'')\<close>
    by (simp add: ascii_def utf8_cp_def)
  from verify_round_trip [OF a b c] a b c show ?thesis by blast
qed

text \<open>
  Claim C3. For a non-empty secret that encodes as UTF-8 and a dict payload the encoder
  accepts (every JSON-representable tree is one), \<open>generate_signature\<close> returns a
  signature, and it is 64 characters long, each of them one of \<open>0123456789abcdef\<close>.
\<close>

theorem generate_signature_format:
  assumes "k \<noteq> []" and "str_encode k = Inr kb" and "serializable (PDict kvs)"
  shows "\<exists>sig. generate_signature (PStr k) (PDict kvs) = Inr sig \<and> length sig = 64
           \<and> set sig \<subseteq> set (ascii ''0123456789abcdef'')"
proof -
  from assms(3) obtain s where s: "iterencode (ascii '','') (ascii '':'') (PDict kvs) = Inr s"
    using iterencode_serializable(1) [of "ascii '',''" "ascii '':''" "PDict kvs"] by blast
  then have "canonical_bytes (PDict kvs) = Inr s" by (rule canonical_bytes_dict)
  with s assms(2) have "generate_signature (PStr k) (PDict kvs) = Inr (hexdigest (hmac_new kb s))"
    by (simp add: generate_signature_canonical json_dumps_def del: iterencode.simps)
  with signature_format [of kb s] show ?thesis by simp
qed

theorem generate_signature_format_witness:
  \<open>ascii ''whsec_test'' \<noteq> [] \<and>
   str_encode (ascii ''whsec_test'') = Inr (ascii ''whsec_test'') \<and>
   serializable (PDict [(KStr (ascii ''n''), PList [PInt (-7), PFloat NaN, PNone])]) \<and>
   (\<exists>sig. generate_signature (PStr (ascii ''whsec_test''))
             (PDict [(KStr (ascii ''n''), PList [PInt (-7), PFloat NaN, PNone])]) = Inr sig
      \<and> length sig = 64 \<and> set sig \<subseteq> set (ascii ''0123456789abcdef''))\<close>
proof -
  have a: "ascii ''whsec_test'' \<noteq> []" by (simp add: ascii_def)
  have b: "str_encode (ascii ''whsec_test'') = Inr (ascii ''whsec_test'')"
    by (simp add: ascii_def utf8_cp_def)
  have c: "serializable (PDict [(KStr (ascii ''n''), PList [PInt (-7), PFloat NaN, PNone])])"
    by simp
  from generate_signature_format [OF a b c] a b c show ?thesis by blast
qed

text \<open>
  Claim C2. When \<open>json.dumps\<close> returns the text \<open>s\<close> for a dict payload, the bytes
  hashed are that text, byte for code point (it is ASCII, so its UTF-8 encoding changes
  nothing); the text is an opening brace, the items joined by a comma and a closing brace,
  each item being the quoted key, a colon and the text of the value; every character of
  it is a printable ASCII character, and a space occurs only when a string or key of the
  payload holds one; and an equal payload gives the same bytes.
\<close>

theorem canonical_bytes_compact_json:
  assumes "json_dumps (PDict kvs) = Inr (PStr s)"
  shows "canonical_bytes (PDict kvs) = Inr s \<and>
         (\<exists>xs. s = ascii ''{'' @ join (ascii '','') xs @ ascii ''}'' \<and>
            list_all2 (\<lambda>(k, v) x. \<exists>ks y. keystr k = Inr ks
                          \<and> json_dumps v = Inr (PStr y)
                          \<and> x = encode_basestring_ascii ks @ ascii '':'' @ y) kvs xs) \<and>
         (\<forall>x \<in> set s. 33 \<le> x \<and> x \<le> 126 \<or> x = 32 \<and> has_space (PDict kvs)) \<and>
         (\<forall>kvs'. PDict kvs' = PDict kvs \<longrightarrow> canonical_bytes (PDict kvs') = Inr s)"
proof -
  from assms have s: "iterencode (ascii '','') (ascii '':'') (PDict kvs) = Inr s"
    by (simp add: json_dumps_def del: iterencode.simps split: sum.splits)
  then have cb: "canonical_bytes (PDict kvs) = Inr s" by (rule canonical_bytes_dict)
  from s obtain xs where xs: "iterencode_dict (ascii '','') (ascii '':'') kvs = Inr xs"
    and sx: "s = ascii ''{'' @ join (ascii '','') xs @ ascii ''}''"
    by (auto split: sum.splits)
  from iterencode_dict_items [OF xs]
  have "list_all2 (\<lambda>(k, v) x. \<exists>ks y. keystr k = Inr ks \<and> json_dumps v = Inr (PStr y)
                          \<and> x = encode_basestring_ascii ks @ ascii '':'' @ y) kvs xs"
    by (rule list_all2_mono) (auto simp: json_dumps_def)
  with sx have items: "\<exists>xs. s = ascii ''{'' @ join (ascii '','') xs @ ascii ''}'' \<and>
            list_all2 (\<lambda>(k, v) x. \<exists>ks y. keystr k = Inr ks
                          \<and> json_dumps v = Inr (PStr y)
                          \<and> x = encode_basestring_ascii ks @ ascii '':'' @ y) kvs xs"
    by blast
  have vis: "\<forall>x \<in> set s. 33 \<le> x \<and> x \<le> 126 \<or> x = 32 \<and> has_space (PDict kvs)"
    using iterencode_visible(1) [OF s] by (auto simp: visible_def)
  from cb items vis show ?thesis by simp
qed
theorem canonical_bytes_compact_json_witness:
  \<open>json_dumps (PDict [(KStr (ascii ''k''), PList [PStr (ascii ''a b''), PBool True])])
     = Inr (PStr (ascii ''{"k":["a b",true]}'')) \<and>
   canonical_bytes (PDict [(KStr (ascii ''k''), PList [PStr (ascii ''a b''), PBool True])])
     = Inr (ascii ''{"k":["a b",true]}'')\<close>
proof -
  have h: \<open>json_dumps (PDict [(KStr (ascii ''k''), PList [PStr (ascii ''a b''), PBool True])])
     = Inr (PStr (ascii ''{"k":["a b",true]}''))\<close>
    by (simp add: json_eval)
  from canonical_bytes_compact_json [OF h] h show ?thesis by blast
qed

text \<open>
  Claim C4 says that a payload with a non-finite number is refused. With \<open>allow_nan\<close>
  at its default, \<open>json.dumps\<close> writes \<open>NaN\<close> for it, and the payload is signed.
\<close>

theorem non_finite_float_signed_counterexample:
  \<open>generate_signature (PStr (ascii ''k'')) (PDict [(KStr (ascii ''a''), PFloat NaN)])
     = Inr (hexdigest (hmac_new (ascii ''k'') (ascii ''{"a":NaN}'')))\<close>
  by (simp add: generate_signature_def json_eval)

text \<open>
  Claim C4, as the code has it: \<open>generate_signature\<close> leaves with the TypeError or
  ValueError of \<open>json.dumps\<close> exactly for the dict payloads that are not serializable,
  those holding a \<open>bytes\<close> object, a key of an unsupported type or a reference to an
  enclosing container; no tag is returned for them. Non-finite floats are serializable.
\<close>

theorem unserializable_payload_rejected:
  "(\<exists>e. generate_signature secret (PDict kvs) = Inl e \<and> (e = TypeError \<or> e = ValueError))
     = (\<not> serializable (PDict kvs))"
proof (cases "iterencode (ascii '','') (ascii '':'') (PDict kvs)")
  case (Inl e)
  then have "\<not> serializable (PDict kvs)"
    using iterencode_serializable(1) [of "ascii '',''" "ascii '':''" "PDict kvs"] by auto
  moreover from Inl have "e = TypeError \<or> e = ValueError" by (rule iterencode_errors(1))
  moreover from Inl have "generate_signature secret (PDict kvs) = Inl e"
    by (simp add: generate_signature_def json_dumps_def del: iterencode.simps)
  ultimately show ?thesis by auto
next
  case (Inr s)
  then have ser: "serializable (PDict kvs)"
    using iterencode_serializable(1) [of "ascii '',''" "ascii '':''" "PDict kvs"] by auto
  from Inr have "canonical_bytes (PDict kvs) = Inr s" by (rule canonical_bytes_dict)
  with Inr have "generate_signature secret (PDict kvs) =
      (case py_encode secret of Inl e \<Rightarrow> Inl e | Inr kb \<Rightarrow> Inr (hexdigest (hmac_new kb s)))"
    by (simp add: generate_signature_canonical json_dumps_def del: iterencode.simps
          split: sum.splits)
  then have "generate_signature secret (PDict kvs) = Inl e \<Longrightarrow> e \<noteq> TypeError \<and> e \<noteq> ValueError" for e
    by (cases "py_encode secret") (auto dest: py_encode_errors)
  with ser show ?thesis by auto
qed

theorem unserializable_payload_rejected_witness:
  "\<not> serializable (PDict [(KStr (ascii ''a''), PList [PInt 1, PBytes [0, 255]])]) \<and>
   generate_signature (PStr (ascii ''k'')) (PDict [(KStr (ascii ''a''), PList [PInt 1, PBytes [0, 255]])])
     = Inl TypeError \<and>
   \<not> serializable (PDict [(KStr (ascii ''a''), PDict [(KStr (ascii ''b''), PCycle)])]) \<and>
   generate_signature (PStr (ascii ''k'')) (PDict [(KStr (ascii ''a''), PDict [(KStr (ascii ''b''), PCycle)])])
     = Inl ValueError"
  using unserializable_payload_rejected
          [of "PStr (ascii ''k'')" "[(KStr (ascii ''a''), PList [PInt 1, PBytes [0, 255]])]"]
  by (simp add: generate_signature_def json_eval)

text \<open>
  Claim C8. The example of the spec: the payload \<open>{"a":1,"b":"x"}\<close> is canonicalized
  to exactly these bytes, and under the secret \<open>whsec_test\<close> the result is the tag of
  these bytes, a string of 64 lowercase hexadecimal characters.
\<close>

theorem example_scenario:
  \<open>canonical_bytes (PDict [(KStr (ascii ''a''), PInt 1), (KStr (ascii ''b''), PStr (ascii ''x''))])
     = Inr (ascii ''{"a":1,"b":"x"}'') \<and>
   generate_signature (PStr (ascii ''whsec_test''))
       (PDict [(KStr (ascii ''a''), PInt 1), (KStr (ascii ''b''), PStr (ascii ''x''))])
     = Inr (hexdigest (hmac_new (ascii ''whsec_test'') (ascii ''{"a":1,"b":"x"}''))) \<and>
   length (hexdigest (hmac_new (ascii ''whsec_test'') (ascii ''{"a":1,"b":"x"}''))) = 64 \<and>
   set (hexdigest (hmac_new (ascii ''whsec_test'') (ascii ''{"a":1,"b":"x"}'')))
     \<subseteq> set (ascii ''0123456789abcdef'')\<close>
proof -
  have \<open>canonical_bytes (PDict [(KStr (ascii ''a''), PInt 1), (KStr (ascii ''b''), PStr (ascii ''x''))])
     = Inr (ascii ''{"a":1,"b":"x"}'')\<close>
    by (simp add: canonical_bytes_def json_eval)
  moreover have \<open>generate_signature (PStr (ascii ''whsec_test''))
       (PDict [(KStr (ascii ''a''), PInt 1), (KStr (ascii ''b''), PStr (ascii ''x''))])
     = Inr (hexdigest (hmac_new (ascii ''whsec_test'') (ascii ''{"a":1,"b":"x"}'')))\<close>
    by (simp add: generate_signature_def json_eval)
  ultimately show ?thesis using signature_format by blast
qed

text \<open>
  Claim C6 says that two dicts with the same items in different orders always give
  different bytes. With \<open>ensure_ascii\<close> a character above the basic plane is written as
  a surrogate pair, and so are two lone surrogates: the keys \<open>U+1F600\<close> and
  \<open>U+D83D U+DE00\<close> are different strings with the same quoted text, and two dicts
  holding both with the same value give the same bytes in either order.
\<close>

theorem key_order_collision_counterexample:
  "distinct (map fst [(KStr [0x1F600], PInt 1), (KStr [0xD83D, 0xDE00], PInt 1)]) \<and>
   set [(KStr [0x1F600], PInt 1), (KStr [0xD83D, 0xDE00], PInt 1)]
     = set [(KStr [0xD83D, 0xDE00], PInt 1), (KStr [0x1F600], PInt 1)] \<and>
   [(KStr [0x1F600], PInt 1), (KStr [0xD83D, 0xDE00], PInt 1)]
     \<noteq> [(KStr [0xD83D, 0xDE00], PInt 1), (KStr [0x1F600], PInt 1)] \<and>
   canonical_bytes (PDict [(KStr [0x1F600], PInt 1), (KStr [0xD83D, 0xDE00], PInt 1)])
     = canonical_bytes (PDict [(KStr [0xD83D, 0xDE00], PInt 1), (KStr [0x1F600], PInt 1)])"
  by (auto simp: canonical_bytes_def json_eval hex4_def)

text \<open>
  Claim C6, as the code has it: the items are written in the order of the dict and are
  never sorted, so two serializable dicts with the same items in different orders, whose
  keys are strings without lone surrogates, are canonicalized to different bytes.
\<close>

theorem key_order_shows_in_bytes:
  assumes "\<forall>kv \<in> set kvs1. text_key (fst kv)"
    and "distinct (map fst kvs1)" and "distinct (map fst kvs2)"
    and "set kvs1 = set kvs2" and "kvs1 \<noteq> kvs2"
    and "serializable (PDict kvs1)"
  shows "\<exists>b1 b2. canonical_bytes (PDict kvs1) = Inr b1 \<and> canonical_bytes (PDict kvs2) = Inr b2
           \<and> b1 \<noteq> b2"
proof -
  from assms(6) have "serializable_dict kvs1" by simp
  with assms(4) have "serializable (PDict kvs2)" by (simp add: serializable_dict_set)
  then obtain s2 where s2: "iterencode (ascii '','') (ascii '':'') (PDict kvs2) = Inr s2"
    using iterencode_serializable(1) [of "ascii '',''" "ascii '':''" "PDict kvs2"] by blast
  from assms(6) obtain s1 where s1: "iterencode (ascii '','') (ascii '':'') (PDict kvs1) = Inr s1"
    using iterencode_serializable(1) [of "ascii '',''" "ascii '':''" "PDict kvs1"] by blast
  from s1 obtain xs1 where xs1: "iterencode_dict (ascii '','') (ascii '':'') kvs1 = Inr xs1"
    and t1: "s1 = ascii ''{'' @ join (ascii '','') xs1 @ ascii ''}''"
    by (auto split: sum.splits)
  from s2 obtain xs2 where xs2: "iterencode_dict (ascii '','') (ascii '':'') kvs2 = Inr xs2"
    and t2: "s2 = ascii ''{'' @ join (ascii '','') xs2 @ ascii ''}''"
    by (auto split: sum.splits)
  have "s1 \<noteq> s2"
  proof
    assume "s1 = s2"
    with t1 t2 have "join (ascii '','') xs1 = join (ascii '','') xs2" by simp
    with assms(1-4) xs1 xs2 have "kvs1 = kvs2" by (rule dict_items_order)
    with assms(5) show False by simp
  qed
  moreover from s1 have "canonical_bytes (PDict kvs1) = Inr s1" by (rule canonical_bytes_dict)
  moreover from s2 have "canonical_bytes (PDict kvs2) = Inr s2" by (rule canonical_bytes_dict)
  ultimately show ?thesis by blast
qed

theorem key_order_shows_in_bytes_witness:
  "text_key (KStr (ascii ''a'')) \<and> text_key (KStr (ascii ''b'')) \<and>
   distinct (map fst [(KStr (ascii ''a''), PInt 1), (KStr (ascii ''b''), PInt 2)]) \<and>
   distinct (map fst [(KStr (ascii ''b''), PInt 2), (KStr (ascii ''a''), PInt 1)]) \<and>
   set [(KStr (ascii ''a''), PInt 1), (KStr (ascii ''b''), PInt 2)]
     = set [(KStr (ascii ''b''), PInt 2), (KStr (ascii ''a''), PInt 1)] \<and>
   [(KStr (ascii ''a''), PInt 1), (KStr (ascii ''b''), PInt 2)]
     \<noteq> [(KStr (ascii ''b''), PInt 2), (KStr (ascii ''a''), PInt 1)] \<and>
   serializable (PDict [(KStr (ascii ''a''), PInt 1), (KStr (ascii ''b''), PInt 2)]) \<and>
   (\<exists>b1 b2. canonical_bytes (PDict [(KStr (ascii ''a''), PInt 1), (KStr (ascii ''b''), PInt 2)]) = Inr b1
      \<and> canonical_bytes (PDict [(KStr (ascii ''b''), PInt 2), (KStr (ascii ''a''), PInt 1)]) = Inr b2
      \<and> b1 \<noteq> b2)"
proof -
  have a: "\<forall>kv \<in> set [(KStr (ascii ''a''), PInt 1), (KStr (ascii ''b''), PInt 2)]. text_key (fst kv)"
    by (simp add: ascii_def scalar_def)
  have b: "distinct (map fst [(KStr (ascii ''a''), PInt 1), (KStr (ascii ''b''), PInt 2)])"
    by (simp add: ascii_def)
  have c: "distinct (map fst [(KStr (ascii ''b''), PInt 2), (KStr (ascii ''a''), PInt 1)])"
    by (simp add: ascii_def)
  have d: "set [(KStr (ascii ''a''), PInt 1), (KStr (ascii ''b''), PInt 2)]
     = set [(KStr (ascii ''b''), PInt 2), (KStr (ascii ''a''), PInt 1)]"
    by auto
  have e: "[(KStr (ascii ''a''), PInt 1), (KStr (ascii ''b''), PInt 2)]
     \<noteq> [(KStr (ascii ''b''), PInt 2), (KStr (ascii ''a''), PInt 1)]"
    by (simp add: ascii_def)
  have f: "serializable (PDict [(KStr (ascii ''a''), PInt 1), (KStr (ascii ''b''), PInt 2)])"
    by simp
  have g: "text_key (KStr (ascii ''a'')) \<and> text_key (KStr (ascii ''b''))"
    by (simp add: ascii_def scalar_def)
  from key_order_shows_in_bytes [OF a b c d e f] g b c d e f show ?thesis by blast
qed


end
